theory Spec2Isabelle
  imports Main
begin

section \<open>The Hooks registry of js-hooks\<close>

text \<open>
  The development embeds the class \<open>Hooks\<close> of the library: two JavaScript objects,
  \<open>this.actions\<close> and \<open>this.filters\<close>, that map a tag to an array of
  \<open>{ priority, callback }\<close> entries, and the eight methods working on them.

  A callback is a function object and the library compares callbacks with \<open>!==\<close>, that
  is by reference. A callback is therefore a reference (a number); what calling it does
  is given by a separate table, see \<open>callbacks\<close> below. Priorities are the integers the
  interface documents.
\<close>

subsection \<open>Data\<close>

type_synonym cbref = nat

record entry =
  priority :: int
  callback :: cbref

text \<open>
  What the expression \<open>this.actions[tag]\<close> can evaluate to: \<open>undefined\<close>, an array of
  entries, or one of the members that every object created by \<open>{}\<close> inherits from
  \<open>Object.prototype\<close>. Of such a member the methods only ever read the property
  \<open>length\<close> (a number for a function, \<open>undefined\<close> for a plain object); it has none of the
  array methods \<open>push\<close>, \<open>filter\<close> and \<open>sort\<close>.
\<close>

datatype jsval = Undefined | Array "entry list" | Builtin "nat option"

text \<open>
  The members of \<open>Object.prototype\<close> in ECMAScript, each with the value of its \<open>length\<close>:
  the functions with their number of formal parameters, and the accessor \<open>__proto__\<close>,
  whose getter returns \<open>Object.prototype\<close> itself, an object without \<open>length\<close>.
\<close>

definition prototype_members :: "(string \<times> nat option) list" where
  "prototype_members =
    [(''constructor'', Some 1), (''hasOwnProperty'', Some 1), (''isPrototypeOf'', Some 1),
     (''propertyIsEnumerable'', Some 1), (''toLocaleString'', Some 0), (''toString'', Some 0),
     (''valueOf'', Some 0), (''__defineGetter__'', Some 2), (''__defineSetter__'', Some 2),
     (''__lookupGetter__'', Some 1), (''__lookupSetter__'', Some 1), (''__proto__'', None)]"

definition object_prototype :: "string \<Rightarrow> jsval" where
  "object_prototype name =
    (case map_of prototype_members name of None \<Rightarrow> Undefined | Some len \<Rightarrow> Builtin len)"

text \<open>
  An object created by \<open>{}\<close> is the map of its own properties. Reading \<open>obj[tag]\<close> finds
  the own property and otherwise follows the prototype chain. Writing \<open>obj[tag] = v\<close>
  creates or overwrites the own property, except that for \<open>__proto__\<close>, as long as the
  object has no own property of that name, the inherited setter runs. The methods below
  only ever write there the value they have just read, \<open>Object.prototype\<close>, so the setter
  leaves the object as it is.
\<close>

definition get_prop :: "(string \<rightharpoonup> jsval) \<Rightarrow> string \<Rightarrow> jsval" where
  "get_prop obj tag = (case obj tag of Some v \<Rightarrow> v | None \<Rightarrow> object_prototype tag)"

definition set_prop :: "(string \<rightharpoonup> jsval) \<Rightarrow> string \<Rightarrow> jsval \<Rightarrow> (string \<rightharpoonup> jsval)" where
  "set_prop obj tag v = (if tag = ''__proto__'' \<and> obj tag = None then obj else obj(tag \<mapsto> v))"

text \<open>Arrays, functions and objects are truthy; \<open>undefined\<close> is falsy.\<close>

fun truthy :: "jsval \<Rightarrow> bool" where
  "truthy Undefined = False"
| "truthy (Array es) = True"
| "truthy (Builtin len) = True"

text \<open>
  The class has the two fields the constructor sets. The state of the whole program is
  an extension of that record: the \<open>more\<close> part stands for everything else that a
  callback can read and write.
\<close>

record hooks =
  actions :: "string \<rightharpoonup> jsval"
  filters :: "string \<rightharpoonup> jsval"

definition new_Hooks :: "'u \<Rightarrow> 'u hooks_scheme" where
  "new_Hooks u = \<lparr>actions = Map.empty, filters = Map.empty, \<dots> = u\<rparr>"

text \<open>
  A thrown value is either the \<open>TypeError\<close> that the runtime raises when a method is
  called that the receiver does not have, or a value raised by a callback.
\<close>

datatype 'x thrown = TypeError | Raised 'x

text \<open>
  Calling the callback \<open>c\<close> with the argument list \<open>args\<close> in the state \<open>w\<close> either throws
  or returns a value, and leaves a new state. Nothing is assumed about it: a callback may
  call any method of the registry again.
\<close>

type_synonym ('v, 'x, 'u) callbacks =
  "cbref \<Rightarrow> 'v list \<Rightarrow> 'u hooks_scheme \<Rightarrow> ('x thrown + 'v) \<times> 'u hooks_scheme"

subsection \<open>Array methods\<close>

text \<open>
  \<open>Array.prototype.sort\<close> with a comparison function sorts the array in place and, since
  ECMAScript 2019, is stable. With a consistent comparison function its result is
  determined by that; it is computed here by insertion, an element going in front of the
  first element that does not compare smaller.
\<close>

fun sort_insert :: "('a \<Rightarrow> 'a \<Rightarrow> int) \<Rightarrow> 'a \<Rightarrow> 'a list \<Rightarrow> 'a list" where
  "sort_insert compareFn a [] = [a]"
| "sort_insert compareFn a (b # bs) =
     (if compareFn a b \<le> 0 then a # b # bs else b # sort_insert compareFn a bs)"

definition array_sort :: "('a \<Rightarrow> 'a \<Rightarrow> int) \<Rightarrow> 'a list \<Rightarrow> 'a list" where
  "array_sort compareFn xs = foldr (sort_insert compareFn) xs []"

text \<open>
  \<open>forEach\<close> over an array that the function called cannot reach: the elements are
  visited in order, and a call that throws ends the loop. Besides the thrown value, if
  any, and the state, the result lists the elements for which the function was called.
\<close>

fun forEach :: "('a \<Rightarrow> 's \<Rightarrow> 'e option \<times> 's) \<Rightarrow> 'a list \<Rightarrow> 's \<Rightarrow> 'a list \<times> 'e option \<times> 's" where
  "forEach f [] s = ([], None, s)"
| "forEach f (x # xs) s =
     (case f x s of
        (Some e, s') \<Rightarrow> ([x], Some e, s')
      | (None, s') \<Rightarrow> (case forEach f xs s' of (called, r, s'') \<Rightarrow> (x # called, r, s'')))"

subsection \<open>The methods of Hooks\<close>

definition addAction ::
  "string \<Rightarrow> cbref \<Rightarrow> int option \<Rightarrow> 'u hooks_scheme \<Rightarrow> ('x thrown + unit) \<times> 'u hooks_scheme" where
  "addAction tag cb prio w =
    (let p = (case prio of None \<Rightarrow> 10 | Some n \<Rightarrow> n);
         v = get_prop (actions w) tag;
         w1 = w\<lparr>actions := set_prop (actions w) tag (if truthy v then v else Array [])\<rparr>
     in case get_prop (actions w1) tag of
          Array es \<Rightarrow>
            (Inr (), w1\<lparr>actions := (actions w1)(tag \<mapsto> Array (es @ [\<lparr>priority = p, callback = cb\<rparr>]))\<rparr>)
        | _ \<Rightarrow> (Inl TypeError, w1))"

definition addFilter ::
  "string \<Rightarrow> cbref \<Rightarrow> int option \<Rightarrow> 'u hooks_scheme \<Rightarrow> ('x thrown + unit) \<times> 'u hooks_scheme" where
  "addFilter tag cb prio w =
    (let p = (case prio of None \<Rightarrow> 10 | Some n \<Rightarrow> n);
         v = get_prop (filters w) tag;
         w1 = w\<lparr>filters := set_prop (filters w) tag (if truthy v then v else Array [])\<rparr>
     in case get_prop (filters w1) tag of
          Array es \<Rightarrow>
            (Inr (), w1\<lparr>filters := (filters w1)(tag \<mapsto> Array (es @ [\<lparr>priority = p, callback = cb\<rparr>]))\<rparr>)
        | _ \<Rightarrow> (Inl TypeError, w1))"

definition removeAction ::
  "string \<Rightarrow> cbref \<Rightarrow> 'u hooks_scheme \<Rightarrow> ('x thrown + unit) \<times> 'u hooks_scheme" where
  "removeAction tag cb w =
    (case get_prop (actions w) tag of
       Undefined \<Rightarrow> (Inr (), w)
     | Array es \<Rightarrow>
         (Inr (), w\<lparr>actions := set_prop (actions w) tag
                     (Array (filter (\<lambda>action. callback action \<noteq> cb) es))\<rparr>)
     | Builtin len \<Rightarrow> (Inl TypeError, w))"

definition removeFilter ::
  "string \<Rightarrow> cbref \<Rightarrow> 'u hooks_scheme \<Rightarrow> ('x thrown + unit) \<times> 'u hooks_scheme" where
  "removeFilter tag cb w =
    (case get_prop (filters w) tag of
       Undefined \<Rightarrow> (Inr (), w)
     | Array es \<Rightarrow>
         (Inr (), w\<lparr>filters := set_prop (filters w) tag
                     (Array (filter (\<lambda>f. callback f \<noteq> cb) es))\<rparr>)
     | Builtin len \<Rightarrow> (Inl TypeError, w))"

text \<open>
  \<open>_getSortedCallbacks(hooks)\<close> calls \<open>hooks.sort\<close>, which reorders the array it is given,
  the one stored in the registry, and then builds a new array of the callbacks with
  \<open>map\<close>. The result is the new content of the argument and the array returned.
\<close>

definition getSortedCallbacks :: "jsval \<Rightarrow> 'x thrown + entry list \<times> cbref list" where
  "getSortedCallbacks hooks =
    (case hooks of
       Array es \<Rightarrow>
         (let ordered = array_sort (\<lambda>a b. priority a - priority b) es
          in Inr (ordered, map callback ordered))
     | _ \<Rightarrow> Inl TypeError)"

text \<open>
  The function \<open>callback => callback(options)\<close> that \<open>doAction\<close> passes to \<open>forEach\<close>:
  the value the callback returns is dropped.
\<close>

definition call_action ::
  "('v, 'x, 'u) callbacks \<Rightarrow> 'v \<Rightarrow> cbref \<Rightarrow> 'u hooks_scheme
    \<Rightarrow> 'x thrown option \<times> 'u hooks_scheme" where
  "call_action cbs options c s =
    (case cbs c [options] s of (Inl e, s') \<Rightarrow> (Some e, s') | (Inr _, s') \<Rightarrow> (None, s'))"

definition doAction ::
  "('v, 'x, 'u) callbacks \<Rightarrow> string \<Rightarrow> 'v \<Rightarrow> 'u hooks_scheme
    \<Rightarrow> cbref list \<times> ('x thrown + unit) \<times> 'u hooks_scheme" where
  "doAction cbs tag options w =
    (if \<not> truthy (get_prop (actions w) tag) then ([], Inr (), w)
     else case getSortedCallbacks (get_prop (actions w) tag) of
       Inl e \<Rightarrow> ([], Inl e, w)
     | Inr (ordered, acts) \<Rightarrow>
         (case forEach (call_action cbs options) acts
                 (w\<lparr>actions := (actions w)(tag \<mapsto> Array ordered)\<rparr>) of
            (called, None, w') \<Rightarrow> (called, Inr (), w')
          | (called, Some e, w') \<Rightarrow> (called, Inl e, w')))"

text \<open>
  In \<open>applyFilters\<close> the function passed to \<open>forEach\<close> is
  \<open>callback => { value = callback(value, options); }\<close>. It assigns to the parameter
  \<open>value\<close>, so the loop runs on the pair of that variable and the program state.
\<close>

definition call_filter ::
  "('v, 'x, 'u) callbacks \<Rightarrow> 'v \<Rightarrow> cbref \<Rightarrow> 'v \<times> 'u hooks_scheme
    \<Rightarrow> 'x thrown option \<times> 'v \<times> 'u hooks_scheme" where
  "call_filter cbs options c vs =
    (case vs of (v, s) \<Rightarrow>
       (case cbs c [v, options] s of
          (Inl e, s') \<Rightarrow> (Some e, (v, s'))
        | (Inr v', s') \<Rightarrow> (None, (v', s'))))"

definition applyFilters ::
  "('v, 'x, 'u) callbacks \<Rightarrow> string \<Rightarrow> 'v \<Rightarrow> 'v \<Rightarrow> 'u hooks_scheme
    \<Rightarrow> cbref list \<times> ('x thrown + 'v) \<times> 'u hooks_scheme" where
  "applyFilters cbs tag val options w =
    (if \<not> truthy (get_prop (filters w) tag) then ([], Inr val, w)
     else case getSortedCallbacks (get_prop (filters w) tag) of
       Inl e \<Rightarrow> ([], Inl e, w)
     | Inr (ordered, fs) \<Rightarrow>
         (case forEach (call_filter cbs options) fs
                 (val, w\<lparr>filters := (filters w)(tag \<mapsto> Array ordered)\<rparr>) of
            (called, None, (v, w')) \<Rightarrow> (called, Inr v, w')
          | (called, Some e, (v, w')) \<Rightarrow> (called, Inl e, w')))"

text \<open>
  \<open>x.length > 0\<close> is false when \<open>x.length\<close> is \<open>undefined\<close>. The two queries never throw
  and change nothing.
\<close>

fun length_positive :: "jsval \<Rightarrow> bool" where
  "length_positive Undefined = False"
| "length_positive (Array es) = (length es > 0)"
| "length_positive (Builtin None) = False"
| "length_positive (Builtin (Some n)) = (n > 0)"

definition hasAction :: "string \<Rightarrow> 'u hooks_scheme \<Rightarrow> bool" where
  "hasAction tag w =
    (truthy (get_prop (actions w) tag) \<and> length_positive (get_prop (actions w) tag))"

definition hasFilter :: "string \<Rightarrow> 'u hooks_scheme \<Rightarrow> bool" where
  "hasFilter tag w =
    (truthy (get_prop (filters w) tag) \<and> length_positive (get_prop (filters w) tag))"

subsection \<open>Programs of calls\<close>

text \<open>
  A caller's program is a list of method calls, run one after the other; a call that
  throws is taken to be caught by the caller, and the program goes on. The run records
  the result of every call.
\<close>

datatype 'v call =
    AddAction string cbref "int option"
  | AddFilter string cbref "int option"
  | RemoveAction string cbref
  | RemoveFilter string cbref
  | DoAction string 'v
  | ApplyFilters string 'v 'v
  | HasAction string
  | HasFilter string

datatype 'v returned = Nothing | Value 'v | Boolean bool

fun exec ::
  "('v, 'x, 'u) callbacks \<Rightarrow> 'v call \<Rightarrow> 'u hooks_scheme
    \<Rightarrow> ('x thrown + 'v returned) \<times> 'u hooks_scheme" where
  "exec cbs (AddAction tag cb prio) w =
     (case addAction tag cb prio w of (r, w') \<Rightarrow> (map_sum id (\<lambda>_. Nothing) r, w'))"
| "exec cbs (AddFilter tag cb prio) w =
     (case addFilter tag cb prio w of (r, w') \<Rightarrow> (map_sum id (\<lambda>_. Nothing) r, w'))"
| "exec cbs (RemoveAction tag cb) w =
     (case removeAction tag cb w of (r, w') \<Rightarrow> (map_sum id (\<lambda>_. Nothing) r, w'))"
| "exec cbs (RemoveFilter tag cb) w =
     (case removeFilter tag cb w of (r, w') \<Rightarrow> (map_sum id (\<lambda>_. Nothing) r, w'))"
| "exec cbs (DoAction tag options) w =
     (case doAction cbs tag options w of (called, r, w') \<Rightarrow> (map_sum id (\<lambda>_. Nothing) r, w'))"
| "exec cbs (ApplyFilters tag val options) w =
     (case applyFilters cbs tag val options w of (called, r, w') \<Rightarrow> (map_sum id Value r, w'))"
| "exec cbs (HasAction tag) w = (Inr (Boolean (hasAction tag w)), w)"
| "exec cbs (HasFilter tag) w = (Inr (Boolean (hasFilter tag w)), w)"

fun run ::
  "('v, 'x, 'u) callbacks \<Rightarrow> 'v call list \<Rightarrow> 'u hooks_scheme
    \<Rightarrow> ('x thrown + 'v returned) list \<times> 'u hooks_scheme" where
  "run cbs [] w = ([], w)"
| "run cbs (c # cs) w =
     (case exec cbs c w of (r, w') \<Rightarrow> (case run cbs cs w' of (rs, w'') \<Rightarrow> (r # rs, w'')))"

subsection \<open>The caller and the callbacks as programs\<close>

text \<open>
  Everything outside the registry, the caller as well as the body of a callback, is a
  program that reaches the registry through its eight methods only. Such a program
  returns a value, throws, reads or writes its own state, or calls a method and goes on
  according to the result, a thrown value included (it may catch it or throw it again).
\<close>

datatype ('v, 'x, 'u) script =
    Return 'v
  | Throw "'x thrown"
  | Call "'v call" "'x thrown + 'v returned \<Rightarrow> ('v, 'x, 'u) script"
  | Get "'u \<Rightarrow> ('v, 'x, 'u) script"
  | Put 'u "('v, 'x, 'u) script"

text \<open>
  A record of what happens is kept beside the state of the programs, which cannot write
  it: every start of a callback body, with its arguments, and every method call made by
  a program, with its result, in the order in which they happen.
\<close>

datatype ('v, 'x) event =
    Invoked cbref "'v list"
  | Did "'v call" "'x thrown + 'v returned"

type_synonym ('v, 'x, 'u) observed = "(('v, 'x) event list \<times> 'u) hooks_scheme"

definition log_event :: "('v, 'x) event \<Rightarrow> ('v, 'x, 'u) observed \<Rightarrow> ('v, 'x, 'u) observed" where
  "log_event e s = s\<lparr>more := (fst (more s) @ [e], snd (more s))\<rparr>"

primrec run_script ::
  "('v, 'x, ('v, 'x) event list \<times> 'u) callbacks \<Rightarrow> ('v, 'x, 'u) script
    \<Rightarrow> ('v, 'x, 'u) observed \<Rightarrow> ('x thrown + 'v) \<times> ('v, 'x, 'u) observed" where
  "run_script cbs (Return v) s = (Inr v, s)"
| "run_script cbs (Throw e) s = (Inl e, s)"
| "run_script cbs (Call c k) s =
     (case exec cbs c s of (r, s') \<Rightarrow> run_script cbs (k r) (log_event (Did c r) s'))"
| "run_script cbs (Get k) s = run_script cbs (k (snd (more s))) s"
| "run_script cbs (Put u k) s = run_script cbs k (s\<lparr>more := (fst (more s), u)\<rparr>)"

text \<open>
  The call stack is finite. With room for \<open>depth\<close> nested callbacks, calling a callback
  runs its body, in which the methods call callbacks with one level less; with no room
  left the call throws a \<open>RangeError\<close> and the body does not start.
\<close>

datatype 'x raised = RangeError | Other 'x

primrec invoke ::
  "(cbref \<Rightarrow> 'v list \<Rightarrow> ('v, 'x raised, 'u) script) \<Rightarrow> nat
    \<Rightarrow> ('v, 'x raised, ('v, 'x raised) event list \<times> 'u) callbacks" where
  "invoke bodies 0 = (\<lambda>c args s. (Inl (Raised RangeError), s))"
| "invoke bodies (Suc depth) =
     (\<lambda>c args s. run_script (invoke bodies depth) (bodies c args) (log_event (Invoked c args) s))"

text \<open>A program that makes the calls of a list one after the other, whatever they give.\<close>

fun script_of :: "'v call list \<Rightarrow> ('v, 'x, 'u) script \<Rightarrow> ('v, 'x, 'u) script" where
  "script_of [] k = k"
| "script_of (c # cs) k = Call c (\<lambda>_. script_of cs k)"

subsection \<open>What the specification speaks of\<close>

text \<open>
  The registrations of actions under a tag, in the order in which they were made, read
  off the calls of a program and their results: a call of \<open>addAction\<close> that returned adds
  an entry at the end, a call of \<open>removeAction\<close> that returned takes away the entries of
  the callback, and nothing else counts.
\<close>

fun note_action :: "string \<Rightarrow> entry list \<Rightarrow> 'v call \<times> ('x thrown + 'v returned) \<Rightarrow> entry list" where
  "note_action tag regs (AddAction t cb prio, Inr _) =
     (if t = tag
      then regs @ [\<lparr>priority = (case prio of None \<Rightarrow> 10 | Some n \<Rightarrow> n), callback = cb\<rparr>]
      else regs)"
| "note_action tag regs (RemoveAction t cb, Inr _) =
     (if t = tag then filter (\<lambda>e. callback e \<noteq> cb) regs else regs)"
| "note_action tag regs _ = regs"

definition registered_actions ::
  "string \<Rightarrow> ('v call \<times> ('x thrown + 'v returned)) list \<Rightarrow> entry list" where
  "registered_actions tag history = foldl (note_action tag) [] history"

text \<open>The method calls of a record, with their results.\<close>

fun calls_of :: "('v, 'x) event list \<Rightarrow> ('v call \<times> ('x thrown + 'v returned)) list" where
  "calls_of [] = []"
| "calls_of (Did c r # es) = (c, r) # calls_of es"
| "calls_of (Invoked c args # es) = calls_of es"

text \<open>
  Invoking the callbacks of a list in its order, each with the options; the values
  returned are dropped, and a callback that throws ends the dispatch.
\<close>

fun call_in_order ::
  "('v, 'x, 'u) callbacks \<Rightarrow> 'v \<Rightarrow> cbref list \<Rightarrow> 'u hooks_scheme
    \<Rightarrow> ('x thrown + unit) \<times> 'u hooks_scheme" where
  "call_in_order cbs options [] s = (Inr (), s)"
| "call_in_order cbs options (c # cs) s =
     (case cbs c [options] s of
        (Inl e, s') \<Rightarrow> (Inl e, s')
      | (Inr _, s') \<Rightarrow> call_in_order cbs options cs s')"

text \<open>Callbacks that do not touch the registry, whatever else they do.\<close>

definition registry_preserving :: "('v, 'x, 'u) callbacks \<Rightarrow> bool" where
  "registry_preserving cbs \<longleftrightarrow>
    (\<forall>c args s. actions (snd (cbs c args s)) = actions s
               \<and> filters (snd (cbs c args s)) = filters s)"

text \<open>
  The fold of the specification: each filter is given the value the one before it
  returned, and a filter that throws ends the chain.
\<close>

fun thread_filters ::
  "('v, 'x, 'u) callbacks \<Rightarrow> 'v \<Rightarrow> cbref list \<Rightarrow> 'v \<Rightarrow> 'u hooks_scheme
    \<Rightarrow> ('x thrown + 'v) \<times> 'u hooks_scheme" where
  "thread_filters cbs options [] v s = (Inr v, s)"
| "thread_filters cbs options (c # cs) v s =
     (case cbs c [v, options] s of
        (Inl e, s') \<Rightarrow> (Inl e, s')
      | (Inr v', s') \<Rightarrow> thread_filters cbs options cs v' s')"

text \<open>
  The array stored under a tag follows a list of registrations when, priority by
  priority, it holds the same entries in the same order; a tag without an array has no
  registrations.
\<close>

definition tracks :: "string \<Rightarrow> entry list \<Rightarrow> 'u hooks_scheme \<Rightarrow> bool" where
  "tracks tag regs w \<longleftrightarrow>
    (case get_prop (actions w) tag of
       Array es \<Rightarrow> (\<forall>p. filter (\<lambda>e. priority e = p) es = filter (\<lambda>e. priority e = p) regs)
     | _ \<Rightarrow> regs = [])"

text \<open>
  In a state that carries a record, the array of the tag follows the registrations that
  the record shows.
\<close>

definition follows :: "string \<Rightarrow> ('v, 'x, 'u) observed \<Rightarrow> bool" where
  "follows tag s \<longleftrightarrow> tracks tag (registered_actions tag (calls_of (fst (more s)))) s"

subsection \<open>Example callbacks and registries\<close>

text \<open>
  The body of callback 1 registers callback 2 at priority 5 under the tag \<open>x\<close>; the other
  bodies do nothing. The caller registers 1 at priority 20 and 3 at priority 5 under
  \<open>x\<close>, dispatches \<open>x\<close>, and tries to register under \<open>constructor\<close>.
\<close>

definition registering :: "cbref \<Rightarrow> nat list \<Rightarrow> (nat, unit raised, unit) script" where
  "registering c args =
    (if c = 1 then Call (AddAction ''x'' 2 (Some 5)) (\<lambda>_. Return 0) else Return 0)"

definition caller :: "(nat, unit raised, unit) script" where
  "caller = script_of
     [AddAction ''x'' 1 (Some 20), AddAction ''x'' 3 (Some 5), DoAction ''x'' 0,
      AddAction ''constructor'' 4 None] (Return 0)"

definition after_caller :: "(nat, unit raised, unit) observed" where
  "after_caller = snd (run_script (invoke registering 2) caller (new_Hooks ([], ())))"

text \<open>Filter 1 doubles its input, every other filter adds three; nothing else happens.\<close>

definition double_or_add :: "cbref \<Rightarrow> nat \<Rightarrow> nat" where
  "double_or_add c x = (if c = 1 then 2 * x else x + 3)"

definition arithmetic :: "(nat, unit, unit) callbacks" where
  "arithmetic c args s = (Inr (double_or_add c (hd args)), s)"

definition two_filters :: "unit hooks_scheme" where
  "two_filters =
    snd (run arithmetic [AddFilter ''t'' 2 (Some 10), AddFilter ''t'' 1 (Some 5)] (new_Hooks ()))"

text \<open>Callbacks that do nothing, and a registry whose actions were not added in priority order.\<close>

definition idle :: "(unit, unit, unit) callbacks" where
  "idle c args s = (Inr (), s)"

definition two_actions :: "unit hooks_scheme" where
  "two_actions =
    snd (run idle [AddAction ''x'' 1 (Some 20), AddAction ''x'' 2 (Some 5)] (new_Hooks ()))"



text \<open>Callback 2 throws; the others return their first argument plus one.\<close>

definition second_throws :: "(nat, string, unit) callbacks" where
  "second_throws c args s =
    (if c = 2 then (Inl (Raised ''boom''), s) else (Inr (hd args + 1), s))"

definition three_hooks :: "unit hooks_scheme" where
  "three_hooks =
    snd (run second_throws
      [AddAction ''x'' 3 (Some 30), AddAction ''x'' 1 (Some 10), AddAction ''x'' 2 (Some 20),
       AddFilter ''x'' 3 (Some 30), AddFilter ''x'' 1 (Some 10), AddFilter ''x'' 2 (Some 20)]
      (new_Hooks ()))"

section \<open>Sorting by priority\<close>

lemmas eval_defs =
  addAction_def addFilter_def removeAction_def removeFilter_def doAction_def applyFilters_def
  hasAction_def hasFilter_def new_Hooks_def get_prop_def set_prop_def object_prototype_def
  prototype_members_def getSortedCallbacks_def array_sort_def call_action_def call_filter_def
  Let_def


text \<open>With the comparison function of the library the sort is the stable sort by priority.\<close>

lemma sort_insert_priority:
  "sort_insert (\<lambda>a b. priority a - priority b) e es = insort_key priority e es"
  by (induction es) auto

lemma array_sort_priority:
  "array_sort (\<lambda>a b. priority a - priority b) es = sort_key priority es"
  by (induction es) (simp_all add: array_sort_def sort_insert_priority)

section \<open>Properties of the building blocks\<close>

subsection \<open>Property access and the loop\<close>

lemma object_prototype_not_Array: "object_prototype tag \<noteq> Array es"
  by (simp add: object_prototype_def split: option.splits)

lemma get_prop_Array_own: "get_prop obj tag = Array es \<Longrightarrow> obj tag = Some (Array es)"
  by (auto simp: get_prop_def object_prototype_not_Array split: option.splits)

lemma get_prop_upd: "get_prop (obj(t \<mapsto> v)) t' = (if t' = t then v else get_prop obj t')"
  by (simp add: get_prop_def)

lemma get_prop_set_prop_other: "t' \<noteq> t \<Longrightarrow> get_prop (set_prop obj t v) t' = get_prop obj t'"
  by (simp add: get_prop_def set_prop_def)


lemma forEach_state:
  assumes step: "\<And>x s. P s \<Longrightarrow> P (snd (f x s))" and init: "P s"
  shows "P (snd (snd (forEach f xs s)))"
  using init
proof (induction xs arbitrary: s)
  case Nil
  then show ?case by simp
next
  case (Cons x xs)
  have "P (snd (f x s))" using step Cons.prems by blast
  then show ?case
    using Cons.IH[of "snd (f x s)"] by (cases "f x s") (auto split: option.splits prod.splits)
qed

lemma forEach_thrown:
  "forEach f xs s = (called, Some e, s') \<Longrightarrow>
     \<exists>k<length xs. called = take (Suc k) xs \<and> (\<exists>s0. f (xs ! k) s0 = (Some e, s'))"
proof (induction xs arbitrary: s called)
  case Nil
  then show ?case by simp
next
  case (Cons x xs)
  obtain o1 s1 where f: "f x s = (o1, s1)" by (cases "f x s")
  show ?case
  proof (cases o1)
    case None
    obtain c2 r2 s2 where rest: "forEach f xs s1 = (c2, r2, s2)" by (cases "forEach f xs s1") auto
    with Cons.prems f None have eq: "called = x # c2" "r2 = Some e" "s2 = s'" by simp_all
    from Cons.IH[of s1 c2] rest eq obtain k where
      k: "k < length xs" "c2 = take (Suc k) xs" "\<exists>s0. f (xs ! k) s0 = (Some e, s')" by auto
    show ?thesis
      by (rule exI[of _ "Suc k"]) (use k eq in simp)
  next
    case (Some e')
    with Cons.prems f have "called = [x]" "e' = e" "s1 = s'" by simp_all
    with f Some show ?thesis by (intro exI[of _ 0]) auto
  qed
qed

subsection \<open>The three cases of a dispatch\<close>

text \<open>
  What a dispatch does depends on what the tag evaluates to: nothing when it is
  \<open>undefined\<close>, a \<open>TypeError\<close> when it is an inherited member, and the loop over the
  sorted callbacks when it is an array.
\<close>

lemma getSortedCallbacks_Array:
  "getSortedCallbacks (Array es) = Inr (sort_key priority es, map callback (sort_key priority es))"
  by (simp add: getSortedCallbacks_def array_sort_priority Let_def)

lemma doAction_Undefined:
  "get_prop (actions w) tag = Undefined \<Longrightarrow> doAction cbs tag opts w = ([], Inr (), w)"
  by (simp add: doAction_def)

lemma doAction_Builtin:
  "get_prop (actions w) tag = Builtin len \<Longrightarrow> doAction cbs tag opts w = ([], Inl TypeError, w)"
  by (simp add: doAction_def getSortedCallbacks_def)

lemma doAction_Array:
  "get_prop (actions w) tag = Array es \<Longrightarrow>
   doAction cbs tag opts w =
     (case forEach (call_action cbs opts) (map callback (sort_key priority es))
             (w\<lparr>actions := (actions w)(tag \<mapsto> Array (sort_key priority es))\<rparr>) of
        (called, r, w') \<Rightarrow> (called, (case r of None \<Rightarrow> Inr () | Some e \<Rightarrow> Inl e), w'))"
  by (simp add: doAction_def getSortedCallbacks_Array split: prod.splits option.splits)

lemma applyFilters_Undefined:
  "get_prop (filters w) tag = Undefined \<Longrightarrow> applyFilters cbs tag v opts w = ([], Inr v, w)"
  by (simp add: applyFilters_def)

lemma applyFilters_Builtin:
  "get_prop (filters w) tag = Builtin len \<Longrightarrow> applyFilters cbs tag v opts w = ([], Inl TypeError, w)"
  by (simp add: applyFilters_def getSortedCallbacks_def)

lemma applyFilters_Array:
  "get_prop (filters w) tag = Array es \<Longrightarrow>
   applyFilters cbs tag v opts w =
     (case forEach (call_filter cbs opts) (map callback (sort_key priority es))
             (v, w\<lparr>filters := (filters w)(tag \<mapsto> Array (sort_key priority es))\<rparr>) of
        (called, r, v', w') \<Rightarrow> (called, (case r of None \<Rightarrow> Inr v' | Some e \<Rightarrow> Inl e), w'))"
  by (simp add: applyFilters_def getSortedCallbacks_Array split: prod.splits option.splits)

subsection \<open>Registration and removal, case by case\<close>

lemma get_prop_Undefined_set:
  "get_prop obj tag = Undefined \<Longrightarrow> set_prop obj tag v = obj(tag \<mapsto> v)"
  by (auto simp: get_prop_def set_prop_def object_prototype_def prototype_members_def split: option.splits)

lemma get_prop_Array_set:
  "get_prop obj tag = Array es \<Longrightarrow> set_prop obj tag v = obj(tag \<mapsto> v)"
  by (auto simp: set_prop_def dest: get_prop_Array_own)

lemma get_prop_set_prop_same:
  "get_prop obj tag = v \<Longrightarrow> get_prop (set_prop obj tag v) t = get_prop obj t"
  by (auto simp: get_prop_def set_prop_def split: option.splits)

lemma addAction_Undefined:
  "get_prop (actions w) tag = Undefined \<Longrightarrow>
   addAction tag cb prio w =
     (Inr (), w\<lparr>actions := (actions w)(tag \<mapsto>
        Array [\<lparr>priority = (case prio of None \<Rightarrow> 10 | Some n \<Rightarrow> n), callback = cb\<rparr>])\<rparr>)"
  by (simp add: addAction_def Let_def get_prop_Undefined_set get_prop_upd)

lemma addAction_Array:
  "get_prop (actions w) tag = Array es \<Longrightarrow>
   addAction tag cb prio w =
     (Inr (), w\<lparr>actions := (actions w)(tag \<mapsto>
        Array (es @ [\<lparr>priority = (case prio of None \<Rightarrow> 10 | Some n \<Rightarrow> n), callback = cb\<rparr>]))\<rparr>)"
  by (simp add: addAction_def Let_def get_prop_Array_set get_prop_upd)

lemma addAction_Builtin:
  "get_prop (actions w) tag = Builtin len \<Longrightarrow> addAction tag cb prio w = (r, w') \<Longrightarrow>
   r = Inl TypeError \<and> get_prop (actions w') t = get_prop (actions w) t \<and> filters w' = filters w"
  by (auto simp: addAction_def Let_def get_prop_set_prop_same)

lemma addAction_filters: "addAction tag cb prio w = (r, w') \<Longrightarrow> filters w' = filters w"
  by (auto simp: addAction_def Let_def split: jsval.splits)

lemma addFilter_Undefined:
  "get_prop (filters w) tag = Undefined \<Longrightarrow>
   addFilter tag cb prio w =
     (Inr (), w\<lparr>filters := (filters w)(tag \<mapsto>
        Array [\<lparr>priority = (case prio of None \<Rightarrow> 10 | Some n \<Rightarrow> n), callback = cb\<rparr>])\<rparr>)"
  by (simp add: addFilter_def Let_def get_prop_Undefined_set get_prop_upd)

lemma addFilter_Array:
  "get_prop (filters w) tag = Array es \<Longrightarrow>
   addFilter tag cb prio w =
     (Inr (), w\<lparr>filters := (filters w)(tag \<mapsto>
        Array (es @ [\<lparr>priority = (case prio of None \<Rightarrow> 10 | Some n \<Rightarrow> n), callback = cb\<rparr>]))\<rparr>)"
  by (simp add: addFilter_def Let_def get_prop_Array_set get_prop_upd)

lemma addFilter_Builtin:
  "get_prop (filters w) tag = Builtin len \<Longrightarrow> addFilter tag cb prio w = (r, w') \<Longrightarrow>
   r = Inl TypeError \<and> get_prop (filters w') t = get_prop (filters w) t \<and> actions w' = actions w"
  by (auto simp: addFilter_def Let_def get_prop_set_prop_same)

lemma addFilter_actions: "addFilter tag cb prio w = (r, w') \<Longrightarrow> actions w' = actions w"
  by (auto simp: addFilter_def Let_def split: jsval.splits)

lemma removeAction_Array:
  "get_prop (actions w) tag = Array es \<Longrightarrow>
   removeAction tag cb w =
     (Inr (), w\<lparr>actions := (actions w)(tag \<mapsto> Array (filter (\<lambda>e. callback e \<noteq> cb) es))\<rparr>)"
  by (simp add: removeAction_def get_prop_Array_set)

lemma removeAction_Undefined:
  "get_prop (actions w) tag = Undefined \<Longrightarrow> removeAction tag cb w = (Inr (), w)"
  by (simp add: removeAction_def)

lemma removeAction_Builtin:
  "get_prop (actions w) tag = Builtin len \<Longrightarrow> removeAction tag cb w = (Inl TypeError, w)"
  by (simp add: removeAction_def)

lemma removeFilter_Array:
  "get_prop (filters w) tag = Array es \<Longrightarrow>
   removeFilter tag cb w =
     (Inr (), w\<lparr>filters := (filters w)(tag \<mapsto> Array (filter (\<lambda>e. callback e \<noteq> cb) es))\<rparr>)"
  by (simp add: removeFilter_def get_prop_Array_set)

lemma removeFilter_Undefined:
  "get_prop (filters w) tag = Undefined \<Longrightarrow> removeFilter tag cb w = (Inr (), w)"
  by (simp add: removeFilter_def)

lemma removeFilter_Builtin:
  "get_prop (filters w) tag = Builtin len \<Longrightarrow> removeFilter tag cb w = (Inl TypeError, w)"
  by (simp add: removeFilter_def)

lemma removeFilter_actions: "removeFilter tag cb w = (r, w') \<Longrightarrow> actions w' = actions w"
  by (auto simp: removeFilter_def split: jsval.splits)

subsection \<open>Callbacks that leave the registry alone\<close>

lemma call_action_registry:
  "registry_preserving cbs \<Longrightarrow>
     actions (snd (call_action cbs opts c s)) = actions s \<and> filters (snd (call_action cbs opts c s)) = filters s"
proof -
  assume rp: "registry_preserving cbs"
  obtain r s' where c: "cbs c [opts] s = (r, s')" by (cases "cbs c [opts] s")
  from rp have "actions (snd (cbs c [opts] s)) = actions s" "filters (snd (cbs c [opts] s)) = filters s"
    by (simp_all add: registry_preserving_def)
  with c show ?thesis by (cases r) (simp_all add: call_action_def)
qed

lemma call_filter_registry:
  "registry_preserving cbs \<Longrightarrow>
     actions (snd (snd (call_filter cbs opts c vs))) = actions (snd vs)
     \<and> filters (snd (snd (call_filter cbs opts c vs))) = filters (snd vs)"
proof -
  assume rp: "registry_preserving cbs"
  obtain v s where vs: "vs = (v, s)" by (cases vs)
  obtain r s' where c: "cbs c [v, opts] s = (r, s')" by (cases "cbs c [v, opts] s")
  from rp have "actions (snd (cbs c [v, opts] s)) = actions s" "filters (snd (cbs c [v, opts] s)) = filters s"
    by (simp_all add: registry_preserving_def)
  with c vs show ?thesis by (cases r) (simp_all add: call_filter_def)
qed

lemma doAction_registry:
  assumes rp: "registry_preserving cbs"
  shows "actions (snd (snd (doAction cbs tag opts w))) =
           (case get_prop (actions w) tag of
              Array es \<Rightarrow> (actions w)(tag \<mapsto> Array (sort_key priority es))
            | _ \<Rightarrow> actions w)"
    and "filters (snd (snd (doAction cbs tag opts w))) = filters w"
proof -
  show "actions (snd (snd (doAction cbs tag opts w))) =
           (case get_prop (actions w) tag of
              Array es \<Rightarrow> (actions w)(tag \<mapsto> Array (sort_key priority es))
            | _ \<Rightarrow> actions w)"
  proof (cases "get_prop (actions w) tag")
    case (Array es)
    let ?A = "(actions w)(tag \<mapsto> Array (sort_key priority es))"
    have "actions (snd (snd (forEach (call_action cbs opts) (map callback (sort_key priority es))
             (w\<lparr>actions := ?A\<rparr>)))) = ?A"
      by (rule forEach_state[where P = "\<lambda>s. actions s = ?A"]) (simp_all add: call_action_registry[OF rp])
    then show ?thesis by (simp add: doAction_Array[OF Array] Array case_prod_beta)
  qed (simp_all add: doAction_Undefined doAction_Builtin)
  show "filters (snd (snd (doAction cbs tag opts w))) = filters w"
  proof (cases "get_prop (actions w) tag")
    case (Array es)
    let ?A = "(actions w)(tag \<mapsto> Array (sort_key priority es))"
    have "filters (snd (snd (forEach (call_action cbs opts) (map callback (sort_key priority es))
             (w\<lparr>actions := ?A\<rparr>)))) = filters w"
      by (rule forEach_state[where P = "\<lambda>s. filters s = filters w"]) (simp_all add: call_action_registry[OF rp])
    then show ?thesis by (simp add: doAction_Array[OF Array] Array case_prod_beta)
  qed (simp_all add: doAction_Undefined doAction_Builtin)
qed

lemma applyFilters_registry:
  assumes rp: "registry_preserving cbs"
  shows "filters (snd (snd (applyFilters cbs tag v opts w))) =
           (case get_prop (filters w) tag of
              Array es \<Rightarrow> (filters w)(tag \<mapsto> Array (sort_key priority es))
            | _ \<Rightarrow> filters w)"
    and "actions (snd (snd (applyFilters cbs tag v opts w))) = actions w"
proof -
  show "filters (snd (snd (applyFilters cbs tag v opts w))) =
           (case get_prop (filters w) tag of
              Array es \<Rightarrow> (filters w)(tag \<mapsto> Array (sort_key priority es))
            | _ \<Rightarrow> filters w)"
  proof (cases "get_prop (filters w) tag")
    case (Array es)
    let ?F = "(filters w)(tag \<mapsto> Array (sort_key priority es))"
    have "filters (snd (snd (snd (forEach (call_filter cbs opts) (map callback (sort_key priority es))
             (v, w\<lparr>filters := ?F\<rparr>))))) = ?F"
      by (rule forEach_state[where P = "\<lambda>vs. filters (snd vs) = ?F"]) (simp_all add: call_filter_registry[OF rp])
    then show ?thesis by (simp add: applyFilters_Array[OF Array] Array case_prod_beta)
  qed (simp_all add: applyFilters_Undefined applyFilters_Builtin)
  show "actions (snd (snd (applyFilters cbs tag v opts w))) = actions w"
  proof (cases "get_prop (filters w) tag")
    case (Array es)
    let ?F = "(filters w)(tag \<mapsto> Array (sort_key priority es))"
    have "actions (snd (snd (snd (forEach (call_filter cbs opts) (map callback (sort_key priority es))
             (v, w\<lparr>filters := ?F\<rparr>))))) = actions w"
      by (rule forEach_state[where P = "\<lambda>vs. actions (snd vs) = actions w"]) (simp_all add: call_filter_registry[OF rp])
    then show ?thesis by (simp add: applyFilters_Array[OF Array] Array case_prod_beta)
  qed (simp_all add: applyFilters_Undefined applyFilters_Builtin)
qed

subsection \<open>The stored array follows the registrations\<close>

lemma new_Hooks_get: "get_prop (actions (new_Hooks u)) tag = object_prototype tag"
  by (simp add: new_Hooks_def get_prop_def)

lemma tracks_new: "tracks tag [] (new_Hooks u)"
  by (simp add: tracks_def new_Hooks_get object_prototype_def split: jsval.splits option.splits)

lemma tracks_cong:
  "get_prop (actions w') tag = get_prop (actions w) tag \<Longrightarrow> tracks tag regs w \<Longrightarrow> tracks tag regs w'"
  by (simp add: tracks_def)

lemma addAction_other:
  "t \<noteq> tag \<Longrightarrow> addAction t cb prio w = (r, w') \<Longrightarrow>
     get_prop (actions w') tag = get_prop (actions w) tag"
  by (cases "get_prop (actions w) t")
     (auto simp: addAction_Undefined addAction_Array get_prop_upd dest: addAction_Builtin)

lemma removeAction_other:
  "t \<noteq> tag \<Longrightarrow> removeAction t cb w = (r, w') \<Longrightarrow>
     get_prop (actions w') tag = get_prop (actions w) tag"
  by (cases "get_prop (actions w) t")
     (auto simp: removeAction_Undefined removeAction_Array removeAction_Builtin get_prop_upd)

lemma same_order_filter:
  assumes "\<forall>p. filter (\<lambda>e. priority e = p) es = filter (\<lambda>e. priority e = p) regs"
  shows "filter (\<lambda>e. priority e = p) (filter Q es) = filter (\<lambda>e. priority e = p) (filter Q regs)"
proof -
  have "filter (\<lambda>e. priority e = p) (filter Q es) = filter Q (filter (\<lambda>e. priority e = p) es)"
    by (simp add: conj_commute)
  also have "\<dots> = filter Q (filter (\<lambda>e. priority e = p) regs)" using assms by simp
  also have "\<dots> = filter (\<lambda>e. priority e = p) (filter Q regs)" by (simp add: conj_commute)
  finally show ?thesis .
qed

lemma tracks_addAction:
  assumes tr: "tracks tag regs w" and ad: "addAction t cb prio w = (r, w')"
  shows "tracks tag (note_action tag regs (AddAction t cb prio, map_sum id (\<lambda>_. Nothing) r)) w'"
proof (cases "t = tag")
  case False
  from addAction_other[OF False ad]
  have "get_prop (actions w') tag = get_prop (actions w) tag" .
  from tracks_cong[OF this tr] False show ?thesis by (cases r) simp_all
next
  case True
  show ?thesis
  proof (cases "get_prop (actions w) tag")
    case Undefined
    with tr have "regs = []" by (simp add: tracks_def)
    with ad True Undefined show ?thesis
      by (auto simp: addAction_Undefined tracks_def get_prop_upd)
  next
    case (Array es)
    with tr have "\<forall>p. filter (\<lambda>e. priority e = p) es = filter (\<lambda>e. priority e = p) regs"
      by (simp add: tracks_def)
    with ad True Array show ?thesis
      by (auto simp: addAction_Array tracks_def get_prop_upd)
  next
    case (Builtin len)
    with tr have regs: "regs = []" by (simp add: tracks_def)
    from addAction_Builtin[of w tag len cb prio r w' tag] Builtin ad True
    have "r = Inl TypeError" "get_prop (actions w') tag = Builtin len" by simp_all
    with regs show ?thesis by (simp add: tracks_def)
  qed
qed

lemma tracks_removeAction:
  assumes tr: "tracks tag regs w" and rm: "removeAction t cb w = (r, w')"
  shows "tracks tag (note_action tag regs (RemoveAction t cb, map_sum id (\<lambda>_. Nothing) r)) w'"
proof (cases "t = tag")
  case False
  from removeAction_other[OF False rm]
  have "get_prop (actions w') tag = get_prop (actions w) tag" .
  from tracks_cong[OF this tr] False show ?thesis by (cases r) simp_all
next
  case True
  show ?thesis
  proof (cases "get_prop (actions w) tag")
    case Undefined
    with tr have "regs = []" by (simp add: tracks_def)
    with rm True Undefined show ?thesis
      by (auto simp: removeAction_Undefined tracks_def)
  next
    case (Array es)
    with tr have "\<forall>p. filter (\<lambda>e. priority e = p) es = filter (\<lambda>e. priority e = p) regs"
      by (simp add: tracks_def)
    from same_order_filter[OF this] rm True Array show ?thesis
      by (auto simp: removeAction_Array tracks_def get_prop_upd)
  next
    case (Builtin len)
    with tr rm True show ?thesis
      by (auto simp: removeAction_Builtin)
  qed
qed

lemma tracks_sorted:
  assumes "tracks tag regs w" and "get_prop (actions w) t = Array es"
  shows "tracks tag regs (w\<lparr>actions := (actions w)(t \<mapsto> Array (sort_key priority es))\<rparr>)"
  using assms by (auto simp: tracks_def get_prop_upd sort_key_stable split: jsval.splits)

subsection \<open>The record of the programs\<close>

lemma calls_of_append: "calls_of (es @ es') = calls_of es @ calls_of es'"
  by (induction es rule: calls_of.induct) simp_all

lemma registered_actions_snoc:
  "registered_actions tag (xs @ [x]) = note_action tag (registered_actions tag xs) x"
  by (simp add: registered_actions_def)

lemma tracks_more: "tracks tag regs (s\<lparr>more := m\<rparr>) = tracks tag regs s"
  by (simp add: tracks_def)

lemma follows_Invoked: "follows tag (log_event (Invoked c args) s) = follows tag s"
  by (simp add: follows_def log_event_def calls_of_append tracks_more)

lemma follows_Did:
  "follows tag (log_event (Did c r) s) =
     tracks tag (note_action tag (registered_actions tag (calls_of (fst (more s)))) (c, r)) s"
  by (simp add: follows_def log_event_def calls_of_append registered_actions_snoc tracks_more)

lemma follows_Did_neutral:
  assumes "\<And>regs. note_action tag regs (c, r) = regs"
  shows "follows tag (log_event (Did c r) s) = follows tag s"
  by (simp add: follows_Did assms) (simp add: follows_def)

lemma note_action_neutral:
  "note_action tag regs (AddFilter t cb prio, r) = regs"
  "note_action tag regs (RemoveFilter t cb, r) = regs"
  "note_action tag regs (DoAction t opts, r) = regs"
  "note_action tag regs (ApplyFilters t v opts, r) = regs"
  "note_action tag regs (HasAction t, r) = regs"
  "note_action tag regs (HasFilter t, r) = regs"
  by (cases r; simp)+

lemma follows_Put: "follows tag (s\<lparr>more := (fst (more s), u)\<rparr>) = follows tag s"
  by (simp add: follows_def tracks_more)

lemma addAction_more: "addAction tag cb prio s = (r, s') \<Longrightarrow> more s' = more s"
  by (auto simp: addAction_def Let_def split: jsval.splits)

lemma addFilter_more: "addFilter tag cb prio s = (r, s') \<Longrightarrow> more s' = more s"
  by (auto simp: addFilter_def Let_def split: jsval.splits)

lemma removeAction_more: "removeAction tag cb s = (r, s') \<Longrightarrow> more s' = more s"
  by (auto simp: removeAction_def split: jsval.splits)

lemma removeFilter_more: "removeFilter tag cb s = (r, s') \<Longrightarrow> more s' = more s"
  by (auto simp: removeFilter_def split: jsval.splits)

lemma follows_same:
  "follows tag s \<Longrightarrow> actions s' = actions s \<Longrightarrow> more s' = more s \<Longrightarrow> follows tag s'"
  by (simp add: follows_def tracks_def)

lemma follows_call_action:
  assumes "\<And>c args s. follows tag s \<Longrightarrow> follows tag (snd (cbs c args s))" and "follows tag s"
  shows "follows tag (snd (call_action cbs opts c s))"
proof -
  obtain r s' where c: "cbs c [opts] s = (r, s')" by (cases "cbs c [opts] s")
  from assms have "follows tag (snd (cbs c [opts] s))" by blast
  with c show ?thesis by (cases r) (simp_all add: call_action_def)
qed

lemma follows_call_filter:
  assumes "\<And>c args s. follows tag s \<Longrightarrow> follows tag (snd (cbs c args s))" and "follows tag (snd vs)"
  shows "follows tag (snd (snd (call_filter cbs opts c vs)))"
proof -
  obtain v s where vs: "vs = (v, s)" by (cases vs)
  obtain r s' where c: "cbs c [v, opts] s = (r, s')" by (cases "cbs c [v, opts] s")
  from assms vs have "follows tag (snd (cbs c [v, opts] s))" by simp
  with c vs show ?thesis by (cases r) (simp_all add: call_filter_def)
qed

lemma follows_doAction:
  assumes pres: "\<And>c args s. follows tag s \<Longrightarrow> follows tag (snd (cbs c args s))" and fo: "follows tag w"
  shows "follows tag (snd (snd (doAction cbs t opts w)))"
proof (cases "get_prop (actions w) t")
  case (Array es)
  from fo have "follows tag (w\<lparr>actions := (actions w)(t \<mapsto> Array (sort_key priority es))\<rparr>)"
    using tracks_sorted[OF _ Array] by (simp add: follows_def)
  then have "follows tag (snd (snd (forEach (call_action cbs opts) (map callback (sort_key priority es))
          (w\<lparr>actions := (actions w)(t \<mapsto> Array (sort_key priority es))\<rparr>))))"
    by (intro forEach_state[where P = "follows tag"]) (simp_all add: follows_call_action[OF pres])
  then show ?thesis by (simp add: doAction_Array[OF Array] case_prod_beta)
qed (use fo in \<open>simp_all add: doAction_Undefined doAction_Builtin\<close>)

lemma follows_applyFilters:
  assumes pres: "\<And>c args s. follows tag s \<Longrightarrow> follows tag (snd (cbs c args s))" and fo: "follows tag w"
  shows "follows tag (snd (snd (applyFilters cbs t v opts w)))"
proof (cases "get_prop (filters w) t")
  case (Array es)
  from fo have "follows tag (w\<lparr>filters := (filters w)(t \<mapsto> Array (sort_key priority es))\<rparr>)"
    by (simp add: follows_def tracks_def)
  then have "follows tag (snd (snd (snd (forEach (call_filter cbs opts)
          (map callback (sort_key priority es))
          (v, w\<lparr>filters := (filters w)(t \<mapsto> Array (sort_key priority es))\<rparr>)))))"
    by (intro forEach_state[where P = "\<lambda>vs. follows tag (snd vs)"])
       (simp_all add: follows_call_filter[OF pres])
  then show ?thesis by (simp add: applyFilters_Array[OF Array] case_prod_beta)
qed (use fo in \<open>simp_all add: applyFilters_Undefined applyFilters_Builtin\<close>)

lemma follows_exec:
  assumes pres: "\<And>c args s. follows tag s \<Longrightarrow> follows tag (snd (cbs c args s))"
    and fo: "follows tag s" and ex: "exec cbs c s = (r, s')"
  shows "follows tag (log_event (Did c r) s')"
proof (cases c)
  case (AddAction t cb prio)
  with ex obtain r0 where ad: "addAction t cb prio s = (r0, s')" and r: "r = map_sum id (\<lambda>_. Nothing) r0"
    by (auto split: prod.splits)
  from fo have "tracks tag (registered_actions tag (calls_of (fst (more s)))) s" by (simp add: follows_def)
  from tracks_addAction[OF this ad] addAction_more[OF ad] AddAction r show ?thesis
    by (simp add: follows_Did)
next
  case (AddFilter t cb prio)
  with ex obtain r0 where ad: "addFilter t cb prio s = (r0, s')" and r: "r = map_sum id (\<lambda>_. Nothing) r0"
    by (auto split: prod.splits)
  from follows_same[OF fo addFilter_actions[OF ad] addFilter_more[OF ad]] AddFilter show ?thesis
    by (simp add: follows_Did_neutral note_action_neutral)
next
  case (RemoveAction t cb)
  with ex obtain r0 where rm: "removeAction t cb s = (r0, s')" and r: "r = map_sum id (\<lambda>_. Nothing) r0"
    by (auto split: prod.splits)
  from fo have "tracks tag (registered_actions tag (calls_of (fst (more s)))) s" by (simp add: follows_def)
  from tracks_removeAction[OF this rm] removeAction_more[OF rm] RemoveAction r show ?thesis
    by (simp add: follows_Did)
next
  case (RemoveFilter t cb)
  with ex obtain r0 where rm: "removeFilter t cb s = (r0, s')" and r: "r = map_sum id (\<lambda>_. Nothing) r0"
    by (auto split: prod.splits)
  from follows_same[OF fo removeFilter_actions[OF rm] removeFilter_more[OF rm]] RemoveFilter show ?thesis
    by (simp add: follows_Did_neutral note_action_neutral)
next
  case (DoAction t opts)
  with ex have "s' = snd (snd (doAction cbs t opts s))" by (auto split: prod.splits)
  with follows_doAction[OF pres fo] DoAction show ?thesis
    by (simp add: follows_Did_neutral note_action_neutral)
next
  case (ApplyFilters t v opts)
  with ex have "s' = snd (snd (applyFilters cbs t v opts s))" by (auto split: prod.splits)
  with follows_applyFilters[OF pres fo] ApplyFilters show ?thesis
    by (simp add: follows_Did_neutral note_action_neutral)
next
  case (HasAction t)
  with ex fo show ?thesis by (auto simp: follows_Did_neutral note_action_neutral)
next
  case (HasFilter t)
  with ex fo show ?thesis by (auto simp: follows_Did_neutral note_action_neutral)
qed

lemma follows_run_script:
  assumes pres: "\<And>c args s. follows tag s \<Longrightarrow> follows tag (snd (cbs c args s))"
  shows "follows tag s \<Longrightarrow> follows tag (snd (run_script cbs sc s))"
proof (induction sc arbitrary: s)
  case (Call c k)
  obtain r s' where ex: "exec cbs c s = (r, s')" by (cases "exec cbs c s")
  from follows_exec[OF pres Call.prems ex] have "follows tag (log_event (Did c r) s')" .
  from Call.IH[OF _ this] ex show ?case by simp
next
  case (Get k)
  from Get.IH[OF _ Get.prems] show ?case by simp
next
  case (Put u k)
  from Put.prems have "follows tag (s\<lparr>more := (fst (more s), u)\<rparr>)" by (simp add: follows_Put)
  from Put.IH[OF this] show ?case by simp
qed simp_all

lemma follows_invoke: "follows tag s \<Longrightarrow> follows tag (snd (invoke bodies depth c args s))"
proof (induction depth arbitrary: c args s)
  case 0
  then show ?case by simp
next
  case (Suc depth)
  from Suc.prems have "follows tag (log_event (Invoked c args) s)" by (simp add: follows_Invoked)
  then have "follows tag (snd (run_script (invoke bodies depth) (bodies c args) (log_event (Invoked c args) s)))"
    by (rule follows_run_script[rotated]) (rule Suc.IH)
  then show ?case by simp
qed

lemma follows_new: "follows tag (new_Hooks ([], u))"
  using tracks_new[of tag "([], u)"] by (simp add: follows_def new_Hooks_def registered_actions_def)

lemma forEach_call_action:
  "(case forEach (call_action cbs opts) cs s of
      (called, r, s') \<Rightarrow> ((case r of None \<Rightarrow> Inr () | Some e \<Rightarrow> Inl e), s'))
   = call_in_order cbs opts cs s"
proof (induction cs arbitrary: s)
  case Nil
  then show ?case by simp
next
  case (Cons c cs)
  obtain r s' where c: "cbs c [opts] s = (r, s')" by (cases "cbs c [opts] s")
  show ?case
  proof (cases r)
    case (Inl e)
    with c show ?thesis by (simp add: call_action_def)
  next
    case (Inr v')
    with c Cons.IH[of s'] show ?thesis
      by (simp add: call_action_def split: prod.splits)
  qed
qed

lemma doAction_call_in_order:
  assumes "get_prop (actions w) tag = Array es"
  shows "snd (doAction cbs tag opts w) =
           call_in_order cbs opts (map callback (sort_key priority es))
             (w\<lparr>actions := (actions w)(tag \<mapsto> Array (sort_key priority es))\<rparr>)"
  using forEach_call_action[of cbs opts "map callback (sort_key priority es)"
      "w\<lparr>actions := (actions w)(tag \<mapsto> Array (sort_key priority es))\<rparr>"]
  by (simp add: doAction_Array[OF assms] split: prod.splits)

subsection \<open>The callbacks called by a dispatch\<close>


subsection \<open>The loop up to a throwing callback, and the fold\<close>

lemma forEach_first_throw:
  "k < length xs \<Longrightarrow> forEach f (take k xs) s = (take k xs, None, s1) \<Longrightarrow> f (xs ! k) s1 = (Some e, s2)
    \<Longrightarrow> forEach f xs s = (take (Suc k) xs, Some e, s2)"
proof (induction xs arbitrary: k s)
  case Nil
  then show ?case by simp
next
  case (Cons x xs)
  show ?case
  proof (cases k)
    case 0
    with Cons.prems show ?thesis by simp
  next
    case (Suc j)
    obtain o1 t where f: "f x s = (o1, t)" by (cases "f x s")
    from Cons.prems(2) Suc f have o1: "o1 = None"
      by (cases o1) auto
    obtain c2 r2 t2 where rest: "forEach f (take j xs) t = (c2, r2, t2)"
      by (cases "forEach f (take j xs) t") auto
    from Cons.prems(2) Suc f o1 rest have "c2 = take j xs" "r2 = None" "t2 = s1" by simp_all
    with rest have "forEach f (take j xs) t = (take j xs, None, s1)" by simp
    moreover from Cons.prems Suc have "j < length xs" "f (xs ! j) s1 = (Some e, s2)" by simp_all
    ultimately have "forEach f xs t = (take (Suc j) xs, Some e, s2)" using Cons.IH[of j t] by blast
    with f o1 Suc show ?thesis by simp
  qed
qed

lemma forEach_call_filter:
  "(case forEach (call_filter cbs opts) cs (v, s) of
      (called, r, v', s') \<Rightarrow> ((case r of None \<Rightarrow> Inr v' | Some e \<Rightarrow> Inl e), s'))
   = thread_filters cbs opts cs v s"
proof (induction cs arbitrary: v s)
  case Nil
  then show ?case by simp
next
  case (Cons c cs)
  obtain r s' where c: "cbs c [v, opts] s = (r, s')" by (cases "cbs c [v, opts] s")
  show ?case
  proof (cases r)
    case (Inl e)
    with c show ?thesis by (simp add: call_filter_def)
  next
    case (Inr v')
    with c Cons.IH[of v' s'] show ?thesis
      by (simp add: call_filter_def split: prod.splits)
  qed
qed

lemma thread_filters_pure:
  "\<forall>c\<in>set cs. \<forall>x s. cbs c [x, opts] s = (Inr (F c x), s) \<Longrightarrow>
     thread_filters cbs opts cs v s = (Inr (foldl (\<lambda>x c. F c x) v cs), s)"
  by (induction cs arbitrary: v) simp_all



subsection \<open>Tags that name no member of the prototype\<close>

text \<open>
  For a tag that the registry has no own property for and that \<open>Object.prototype\<close> has
  no member for, the lookup gives \<open>undefined\<close>; a dispatch on an empty array does
  nothing; and the queries answer by the array alone.
\<close>

lemma get_prop_absent:
  "obj tag = None \<Longrightarrow> map_of prototype_members tag = None \<Longrightarrow> get_prop obj tag = Undefined"
  by (simp add: get_prop_def object_prototype_def)

lemma doAction_empty:
  "get_prop (actions w) tag = Array [] \<Longrightarrow> doAction cbs tag opts w = ([], Inr (), w)"
  by (frule get_prop_Array_own) (simp add: doAction_Array fun_upd_idem)

lemma applyFilters_empty:
  "get_prop (filters w) tag = Array [] \<Longrightarrow> applyFilters cbs tag v opts w = ([], Inr v, w)"
  by (frule get_prop_Array_own) (simp add: applyFilters_Array fun_upd_idem)

lemma hasAction_iff:
  "hasAction tag w \<longleftrightarrow>
     (case get_prop (actions w) tag of
        Array es \<Rightarrow> es \<noteq> [] | Builtin (Some n) \<Rightarrow> 0 < n | _ \<Rightarrow> False)"
  by (simp add: hasAction_def split: jsval.splits option.splits)

lemma hasFilter_iff:
  "hasFilter tag w \<longleftrightarrow>
     (case get_prop (filters w) tag of
        Array es \<Rightarrow> es \<noteq> [] | Builtin (Some n) \<Rightarrow> 0 < n | _ \<Rightarrow> False)"
  by (simp add: hasFilter_def split: jsval.splits option.splits)

lemma remove_twice_registered:
  assumes "get_prop (actions w) tag = Array es"
    and "addAction tag cb p w = (r1, w1)" and "addAction tag cb q w1 = (r2, w2)"
    and "removeAction tag cb w2 = (r3, w3)"
  shows "r3 = Inr () \<and> get_prop (actions w3) tag = Array (filter (\<lambda>e. callback e \<noteq> cb) es)"
proof -
  let ?e = "\<lambda>p. \<lparr>priority = (case p of None \<Rightarrow> 10 | Some n \<Rightarrow> n), callback = cb\<rparr>"
  from assms(1,2) have 1: "get_prop (actions w1) tag = Array (es @ [?e p])"
    by (auto simp: addAction_Array get_prop_upd)
  with assms(3) have 2: "get_prop (actions w2) tag = Array (es @ [?e p] @ [?e q])"
    by (auto simp: addAction_Array get_prop_upd)
  with assms(4) show ?thesis
    by (auto simp: removeAction_Array get_prop_upd)
qed

lemma sorted_array_kept:
  assumes "\<forall>es. get_prop obj tag = Array es \<longrightarrow> sorted (map priority es)"
  shows "(case get_prop obj tag of
            Array es \<Rightarrow> obj(tag \<mapsto> Array (sort_key priority es))
          | _ \<Rightarrow> obj) = obj"
proof (cases "get_prop obj tag")
  case (Array es)
  with assms have "sort_key priority es = es" by (simp add: sort_key_id_if_sorted)
  moreover from Array have "obj tag = Some (Array es)" by (rule get_prop_Array_own)
  ultimately show ?thesis using Array by (simp add: fun_upd_idem)
qed simp_all

section \<open>The claims of the specification\<close>

subsection \<open>Order of dispatch\<close>

text \<open>
  Claim C1. The caller and the callbacks are any programs, the stack has any depth, and
  the caller's program has run on a new registry. The registrations of the tag are
  those the record shows, the ones made by callbacks among them. Then \<open>doAction(tag)\<close>
  does what invoking, one after the other, the callbacks of a list \<open>es\<close> of entries does,
  outcome and final state alike, where \<open>es\<close> is in non-decreasing priority order and,
  for every priority, holds exactly the entries registered with that priority and not
  removed since, in the order of their registration; the array of the tag holds \<open>es\<close>
  while they run. The one exception is a tag that names a member of the prototype:
  nothing is registered under it, and the dispatch throws without invoking anything.
\<close>

theorem dispatch_in_priority_then_registration_order:
  assumes "run_script (invoke bodies depth) main (new_Hooks ([], u)) = (r0, w)"
  shows "\<exists>es. (\<forall>p. filter (\<lambda>e. priority e = p) es
                    = filter (\<lambda>e. priority e = p)
                        (registered_actions tag (calls_of (fst (more w)))))
             \<and> sorted (map priority es)
             \<and> (snd (doAction (invoke bodies depth) tag opts w) =
                   call_in_order (invoke bodies depth) opts (map callback es)
                     (case get_prop (actions w) tag of
                        Array stored \<Rightarrow> w\<lparr>actions := (actions w)(tag \<mapsto> Array es)\<rparr>
                      | _ \<Rightarrow> w)
                 \<or> es = [] \<and> doAction (invoke bodies depth) tag opts w = ([], Inl TypeError, w))"
proof -
  let ?regs = "registered_actions tag (calls_of (fst (more w)))"
  have "follows tag (snd (run_script (invoke bodies depth) main (new_Hooks ([], u))))"
    by (rule follows_run_script[OF follows_invoke follows_new])
  with assms have tr: "tracks tag ?regs w" by (simp add: follows_def)
  show ?thesis
  proof (cases "get_prop (actions w) tag")
    case (Array es0)
    with tr have "\<forall>p. filter (\<lambda>e. priority e = p) (sort_key priority es0)
                    = filter (\<lambda>e. priority e = p) ?regs"
      by (simp add: tracks_def sort_key_stable)
    moreover have "sorted (map priority (sort_key priority es0))" by simp
    moreover have "snd (doAction (invoke bodies depth) tag opts w) =
                   call_in_order (invoke bodies depth) opts (map callback (sort_key priority es0))
                     (case get_prop (actions w) tag of
                        Array stored \<Rightarrow> w\<lparr>actions := (actions w)(tag \<mapsto> Array (sort_key priority es0))\<rparr>
                      | _ \<Rightarrow> w)"
      by (simp add: doAction_call_in_order[OF Array] Array)
    ultimately show ?thesis by (intro exI[of _ "sort_key priority es0"]) simp
  next
    case Undefined
    with tr have "?regs = []" by (simp add: tracks_def)
    with Undefined show ?thesis
      by (intro exI[of _ "[]"]) (simp add: doAction_Undefined)
  next
    case (Builtin len)
    with tr have "?regs = []" by (simp add: tracks_def)
    with Builtin show ?thesis
      by (intro exI[of _ "[]"]) (simp add: doAction_Builtin)
  qed
qed

lemmas script_defs = caller_def registering_def after_caller_def log_event_def eval_nat_numeral

lemma after_caller_registered:
  "registered_actions ''x'' (calls_of (fst (more after_caller))) =
     [\<lparr>priority = 20, callback = 1\<rparr>, \<lparr>priority = 5, callback = 3\<rparr>, \<lparr>priority = 5, callback = 2\<rparr>]"
  by (simp add: script_defs eval_defs registered_actions_def)

lemma after_caller_stored:
  "get_prop (actions after_caller) ''x'' =
     Array [\<lparr>priority = 5, callback = 3\<rparr>, \<lparr>priority = 20, callback = 1\<rparr>, \<lparr>priority = 5, callback = 2\<rparr>]"
  by (simp add: script_defs eval_defs)

lemma after_caller_dispatch:
  "fst (snd (doAction (invoke registering 2) ''x'' 0 after_caller)) = Inr ()"
  "fst (more (snd (snd (doAction (invoke registering 2) ''x'' 0 after_caller)))) =
     fst (more after_caller) @
     [Invoked 3 [0], Invoked 2 [0], Invoked 1 [0], Did (AddAction ''x'' 2 (Some 5)) (Inr Nothing)]"
  by (simp_all add: script_defs eval_defs)

text \<open>
  In the example the dispatch made by the caller has sorted the array of \<open>x\<close> and
  callback 1 has then registered callback 2: the array holds 3, 1, 2 and the
  registrations are 1, 3, 2. The next dispatch starts the bodies of 3, 2 and 1, in that
  order, and callback 1 registers once more.
\<close>

theorem dispatch_in_priority_then_registration_order_witness:
  "registered_actions ''x'' (calls_of (fst (more after_caller))) =
     [\<lparr>priority = 20, callback = 1\<rparr>, \<lparr>priority = 5, callback = 3\<rparr>, \<lparr>priority = 5, callback = 2\<rparr>]
   \<and> fst (more (snd (snd (doAction (invoke registering 2) ''x'' 0 after_caller)))) =
       fst (more after_caller) @
       [Invoked 3 [0], Invoked 2 [0], Invoked 1 [0], Did (AddAction ''x'' 2 (Some 5)) (Inr Nothing)]
   \<and> (\<exists>es. (\<forall>p. filter (\<lambda>e. priority e = p) es =
                  filter (\<lambda>e. priority e = p)
                    [\<lparr>priority = 20, callback = 1\<rparr>, \<lparr>priority = 5, callback = 3\<rparr>,
                     \<lparr>priority = 5, callback = 2\<rparr>])
           \<and> sorted (map priority es)
           \<and> snd (doAction (invoke registering 2) ''x'' 0 after_caller) =
               call_in_order (invoke registering 2) 0 (map callback es)
                 (after_caller\<lparr>actions := (actions after_caller)(''x'' \<mapsto> Array es)\<rparr>))"
proof -
  let ?d = "doAction (invoke registering 2) ''x'' 0 after_caller"
  have run: "run_script (invoke registering 2) caller (new_Hooks ([], ())) =
               (fst (run_script (invoke registering 2) caller (new_Hooks ([], ()))), after_caller)"
    by (simp add: after_caller_def)
  from dispatch_in_priority_then_registration_order[OF run, of "''x''" 0]
  obtain es where es:
    "\<forall>p. filter (\<lambda>e. priority e = p) es =
         filter (\<lambda>e. priority e = p) (registered_actions ''x'' (calls_of (fst (more after_caller))))"
    "sorted (map priority es)"
    "snd ?d = call_in_order (invoke registering 2) 0 (map callback es)
                (case get_prop (actions after_caller) ''x'' of
                   Array stored \<Rightarrow> after_caller\<lparr>actions := (actions after_caller)(''x'' \<mapsto> Array es)\<rparr>
                 | _ \<Rightarrow> after_caller)
     \<or> es = [] \<and> ?d = ([], Inl TypeError, after_caller)"
    by (elim exE conjE)
  from after_caller_dispatch(1) have "?d \<noteq> ([], Inl TypeError, after_caller)"
    by (rule contrapos_pn) simp
  with es(3) have eq: "snd ?d = call_in_order (invoke registering 2) 0 (map callback es)
                (after_caller\<lparr>actions := (actions after_caller)(''x'' \<mapsto> Array es)\<rparr>)"
    by (simp add: after_caller_stored)
  from es(1) have f: "\<forall>p. filter (\<lambda>e. priority e = p) es =
                  filter (\<lambda>e. priority e = p)
                    [\<lparr>priority = 20, callback = 1\<rparr>, \<lparr>priority = 5, callback = 3\<rparr>,
                     \<lparr>priority = 5, callback = 2\<rparr>]"
    unfolding after_caller_registered .
  have ex: "\<exists>es. (\<forall>p. filter (\<lambda>e. priority e = p) es =
                  filter (\<lambda>e. priority e = p)
                    [\<lparr>priority = 20, callback = 1\<rparr>, \<lparr>priority = 5, callback = 3\<rparr>,
                     \<lparr>priority = 5, callback = 2\<rparr>])
           \<and> sorted (map priority es)
           \<and> snd ?d = call_in_order (invoke registering 2) 0 (map callback es)
                 (after_caller\<lparr>actions := (actions after_caller)(''x'' \<mapsto> Array es)\<rparr>)"
    by (rule exI[of _ es]) (intro conjI f es(2) eq)
  show ?thesis
    by (intro conjI after_caller_registered after_caller_dispatch(2) ex)
qed

subsection \<open>The fold of the filters\<close>

text \<open>
  Claim C2. When the tag has an array of filters, \<open>applyFilters(tag, value, options)\<close>
  gives what threading the value through the callbacks of the array, sorted by
  priority, gives: outcome and final state alike, in the state in which the array of
  the tag has been sorted. If every filter of the tag is a function \<open>F c\<close> of its input
  without any effect, the value returned is the fold of these functions from the left.
\<close>

theorem applyFilters_threads_values:
  assumes "get_prop (filters w) tag = Array es"
  shows "snd (applyFilters cbs tag v opts w) =
           thread_filters cbs opts (map callback (sort_key priority es)) v
             (w\<lparr>filters := (filters w)(tag \<mapsto> Array (sort_key priority es))\<rparr>)
         \<and> ((\<forall>c\<in>set (map callback es). \<forall>x s. cbs c [x, opts] s = (Inr (F c x), s)) \<longrightarrow>
              fst (snd (applyFilters cbs tag v opts w)) =
                Inr (foldl (\<lambda>x c. F c x) v (map callback (sort_key priority es))))"
proof -
  let ?cs = "map callback (sort_key priority es)"
  let ?w = "w\<lparr>filters := (filters w)(tag \<mapsto> Array (sort_key priority es))\<rparr>"
  have thread: "snd (applyFilters cbs tag v opts w) = thread_filters cbs opts ?cs v ?w"
    using forEach_call_filter[of cbs opts ?cs v ?w]
    by (simp add: applyFilters_Array[OF assms] split: prod.splits)
  have "fst (snd (applyFilters cbs tag v opts w)) = Inr (foldl (\<lambda>x c. F c x) v ?cs)"
    if pure: "\<forall>c\<in>set (map callback es). \<forall>x s. cbs c [x, opts] s = (Inr (F c x), s)"
  proof -
    from pure have "\<forall>c\<in>set ?cs. \<forall>x s. cbs c [x, opts] s = (Inr (F c x), s)" by simp
    from thread_filters_pure[OF this] thread show ?thesis by simp
  qed
  with thread show ?thesis by blast
qed

lemma two_filters_stored:
  "get_prop (filters two_filters) ''t'' =
     Array [\<lparr>priority = 10, callback = 2\<rparr>, \<lparr>priority = 5, callback = 1\<rparr>]"
  by (simp add: two_filters_def arithmetic_def eval_defs)

lemma arithmetic_pure: "arithmetic c [x, opts] s = (Inr (double_or_add c x), s)"
  by (simp add: arithmetic_def)

text \<open>
  The filter 2, adding three, is registered first at priority 10 and the filter 1,
  doubling, second at priority 5: from 5 the result is 13, the doubling first.
\<close>

theorem applyFilters_threads_values_witness:
  "get_prop (filters two_filters) ''t'' =
     Array [\<lparr>priority = 10, callback = 2\<rparr>, \<lparr>priority = 5, callback = 1\<rparr>]
   \<and> fst (snd (applyFilters arithmetic ''t'' 5 0 two_filters)) =
       Inr (double_or_add 2 (double_or_add 1 5))
   \<and> double_or_add 2 (double_or_add 1 5) = 13
   \<and> double_or_add 1 (double_or_add 2 5) = 16"
proof -
  have "fst (snd (applyFilters arithmetic ''t'' 5 0 two_filters)) =
       Inr (double_or_add 2 (double_or_add 1 5))"
    using applyFilters_threads_values[OF two_filters_stored,
        where cbs = arithmetic and opts = 0 and F = double_or_add and v = 5]
    by (simp add: arithmetic_pure)
  moreover have "double_or_add 2 (double_or_add 1 5) = 13" "double_or_add 1 (double_or_add 2 5) = 16"
    by (simp_all add: double_or_add_def)
  ultimately show ?thesis using two_filters_stored by simp
qed

subsection \<open>What a dispatch leaves in the registry\<close>

lemma idle_preserving: "registry_preserving idle"
  by (simp add: registry_preserving_def idle_def)

lemma two_actions_stored:
  "get_prop (actions two_actions) ''x'' =
     Array [\<lparr>priority = 20, callback = 1\<rparr>, \<lparr>priority = 5, callback = 2\<rparr>]"
  by (simp add: two_actions_def idle_def eval_defs)

lemma two_actions_dispatched:
  "get_prop (actions (snd (snd (doAction idle ''x'' () two_actions)))) ''x'' =
     Array [\<lparr>priority = 5, callback = 2\<rparr>, \<lparr>priority = 20, callback = 1\<rparr>]"
  by (simp add: two_actions_def idle_def eval_defs)

text \<open>
  Claim C3 as the specification states it fails: the callbacks do nothing, the actions
  of \<open>x\<close> were registered at priorities 20 and 5, and after \<open>doAction\<close> the array
  stored under \<open>x\<close> has them in the opposite order.
\<close>

theorem dispatch_reorders_stored_entries:
  "registry_preserving idle
   \<and> get_prop (actions two_actions) ''x'' =
        Array [\<lparr>priority = 20, callback = 1\<rparr>, \<lparr>priority = 5, callback = 2\<rparr>]
   \<and> get_prop (actions (snd (snd (doAction idle ''x'' () two_actions)))) ''x'' =
        Array [\<lparr>priority = 5, callback = 2\<rparr>, \<lparr>priority = 20, callback = 1\<rparr>]
   \<and> actions (snd (snd (doAction idle ''x'' () two_actions))) \<noteq> actions two_actions"
proof -
  have "get_prop (actions (snd (snd (doAction idle ''x'' () two_actions)))) ''x''
      \<noteq> get_prop (actions two_actions) ''x''"
    unfolding two_actions_stored two_actions_dispatched by simp
  then have "actions (snd (snd (doAction idle ''x'' () two_actions))) \<noteq> actions two_actions"
    by (rule contrapos_nn) simp
  then show ?thesis
    by (intro conjI idle_preserving two_actions_stored two_actions_dispatched)
qed

text \<open>
  Claim C3, amended. With callbacks that leave the registry alone, \<open>doAction\<close> changes
  nothing in \<open>filters\<close> and nothing in \<open>actions\<close> but the array of the tag it is called
  on, which it leaves stably sorted by priority; \<open>applyFilters\<close> does the same with the
  two objects exchanged. In particular the registry is left exactly as it was when
  the array of the tag was in priority order already, and when the tag has no array.
\<close>

theorem dispatch_sorts_stored_array:
  assumes "registry_preserving cbs"
  shows "actions (snd (snd (doAction cbs tag opts w))) =
           (case get_prop (actions w) tag of
              Array es \<Rightarrow> (actions w)(tag \<mapsto> Array (sort_key priority es))
            | _ \<Rightarrow> actions w)
       \<and> filters (snd (snd (doAction cbs tag opts w))) = filters w
       \<and> filters (snd (snd (applyFilters cbs tag v opts w))) =
           (case get_prop (filters w) tag of
              Array es \<Rightarrow> (filters w)(tag \<mapsto> Array (sort_key priority es))
            | _ \<Rightarrow> filters w)
       \<and> actions (snd (snd (applyFilters cbs tag v opts w))) = actions w
       \<and> ((\<forall>es. get_prop (actions w) tag = Array es \<longrightarrow> sorted (map priority es)) \<longrightarrow>
            actions (snd (snd (doAction cbs tag opts w))) = actions w)
       \<and> ((\<forall>es. get_prop (filters w) tag = Array es \<longrightarrow> sorted (map priority es)) \<longrightarrow>
            filters (snd (snd (applyFilters cbs tag v opts w))) = filters w)"
  using doAction_registry[OF assms, of tag opts w] applyFilters_registry[OF assms, of tag v opts w]
    sorted_array_kept[of "actions w" tag] sorted_array_kept[of "filters w" tag]
  by simp

text \<open>
  The registry of the counterexample: the first dispatch sorts the array of \<open>x\<close>, a
  second dispatch finds it in order and changes nothing.
\<close>

theorem dispatch_sorts_stored_array_witness:
  "registry_preserving idle
   \<and> get_prop (actions two_actions) ''x'' =
        Array [\<lparr>priority = 20, callback = 1\<rparr>, \<lparr>priority = 5, callback = 2\<rparr>]
   \<and> actions (snd (snd (doAction idle ''x'' () two_actions))) =
        (actions two_actions)(''x'' \<mapsto>
           Array [\<lparr>priority = 5, callback = 2\<rparr>, \<lparr>priority = 20, callback = 1\<rparr>])
   \<and> filters (snd (snd (doAction idle ''x'' () two_actions))) = filters two_actions
   \<and> actions (snd (snd (doAction idle ''x'' () (snd (snd (doAction idle ''x'' () two_actions)))))) =
        actions (snd (snd (doAction idle ''x'' () two_actions)))
   \<and> filters (snd (snd (applyFilters idle ''x'' () () two_actions))) = filters two_actions
   \<and> actions (snd (snd (applyFilters idle ''x'' () () two_actions))) = actions two_actions"
proof -
  let ?w = "snd (snd (doAction idle ''x'' () two_actions))"
  have f: "get_prop (filters two_actions) ''x'' = Undefined"
    by (simp add: two_actions_def idle_def eval_defs)
  have in_order: "\<forall>es. get_prop (actions ?w) ''x'' = Array es \<longrightarrow> sorted (map priority es)"
    by (simp add: two_actions_dispatched)
  note second = dispatch_sorts_stored_array[OF idle_preserving, of "''x''" "()" ?w "()"]
  have again: "actions (snd (snd (doAction idle ''x'' () ?w))) = actions ?w"
    by (rule mp[OF second[THEN conjunct2, THEN conjunct2, THEN conjunct2, THEN conjunct2,
          THEN conjunct1] in_order])
  from dispatch_sorts_stored_array[OF idle_preserving, of "''x''" "()" two_actions "()"] again
  show ?thesis
    by (simp add: idle_preserving two_actions_stored f)
qed

subsection \<open>Callbacks that change the registry while it dispatches\<close>




lemma three_hooks_stored:
  "get_prop (actions three_hooks) ''x'' =
     Array [\<lparr>priority = 30, callback = 3\<rparr>, \<lparr>priority = 10, callback = 1\<rparr>,
            \<lparr>priority = 20, callback = 2\<rparr>]"
  "get_prop (filters three_hooks) ''x'' =
     Array [\<lparr>priority = 30, callback = 3\<rparr>, \<lparr>priority = 10, callback = 1\<rparr>,
            \<lparr>priority = 20, callback = 2\<rparr>]"
  by (simp_all add: three_hooks_def second_throws_def eval_defs)


subsection \<open>A callback that throws\<close>

text \<open>
  Claim C6. Let the callbacks of the tag in priority order be \<open>c\<^sub>0, \<dots>, c\<^sub>n\<close>. If the
  first \<open>k\<close> of them return and \<open>c\<^sub>k\<close>, called in the state they leave (for a filter, with
  the value they produced), throws \<open>e\<close>, then the dispatch has called \<open>c\<^sub>0, \<dots>, c\<^sub>k\<close> and no
  other callback, and it throws the same \<open>e\<close>, in the state in which \<open>c\<^sub>k\<close> threw.
\<close>

theorem thrown_error_ends_dispatch:
  "(get_prop (actions w) tag = Array es \<and> k < length es
      \<and> forEach (call_action cbs opts) (take k (map callback (sort_key priority es)))
           (w\<lparr>actions := (actions w)(tag \<mapsto> Array (sort_key priority es))\<rparr>)
         = (take k (map callback (sort_key priority es)), None, s1)
      \<and> cbs (map callback (sort_key priority es) ! k) [opts] s1 = (Inl e, s2)
    \<longrightarrow> doAction cbs tag opts w = (take (Suc k) (map callback (sort_key priority es)), Inl e, s2))
   \<and> (get_prop (filters w) tag = Array fs \<and> k < length fs
      \<and> forEach (call_filter cbs opts) (take k (map callback (sort_key priority fs)))
           (v, w\<lparr>filters := (filters w)(tag \<mapsto> Array (sort_key priority fs))\<rparr>)
         = (take k (map callback (sort_key priority fs)), None, v1, t1)
      \<and> cbs (map callback (sort_key priority fs) ! k) [v1, opts] t1 = (Inl e, t2)
    \<longrightarrow> applyFilters cbs tag v opts w = (take (Suc k) (map callback (sort_key priority fs)), Inl e, t2))"
proof (intro conjI impI; elim conjE)
  let ?cs = "map callback (sort_key priority es)"
  assume a: "get_prop (actions w) tag = Array es" and k: "k < length es"
    and pre: "forEach (call_action cbs opts) (take k ?cs)
           (w\<lparr>actions := (actions w)(tag \<mapsto> Array (sort_key priority es))\<rparr>) = (take k ?cs, None, s1)"
    and thr: "cbs (?cs ! k) [opts] s1 = (Inl e, s2)"
  from thr have "call_action cbs opts (?cs ! k) s1 = (Some e, s2)" by (simp add: call_action_def)
  with k pre have "forEach (call_action cbs opts) ?cs
           (w\<lparr>actions := (actions w)(tag \<mapsto> Array (sort_key priority es))\<rparr>) = (take (Suc k) ?cs, Some e, s2)"
    by (intro forEach_first_throw) simp_all
  then show "doAction cbs tag opts w = (take (Suc k) ?cs, Inl e, s2)"
    by (simp add: doAction_Array[OF a])
next
  let ?cs = "map callback (sort_key priority fs)"
  assume a: "get_prop (filters w) tag = Array fs" and k: "k < length fs"
    and pre: "forEach (call_filter cbs opts) (take k ?cs)
           (v, w\<lparr>filters := (filters w)(tag \<mapsto> Array (sort_key priority fs))\<rparr>) = (take k ?cs, None, v1, t1)"
    and thr: "cbs (?cs ! k) [v1, opts] t1 = (Inl e, t2)"
  from thr have "call_filter cbs opts (?cs ! k) (v1, t1) = (Some e, v1, t2)" by (simp add: call_filter_def)
  with k pre have "forEach (call_filter cbs opts) ?cs
           (v, w\<lparr>filters := (filters w)(tag \<mapsto> Array (sort_key priority fs))\<rparr>) = (take (Suc k) ?cs, Some e, v1, t2)"
    by (intro forEach_first_throw) simp_all
  then show "applyFilters cbs tag v opts w = (take (Suc k) ?cs, Inl e, t2)"
    by (simp add: applyFilters_Array[OF a])
qed

text \<open>
  Three callbacks at priorities 10, 20 and 30, registered in another order; the second
  throws. Both dispatches call 1 and 2, not 3, and throw what 2 threw.
\<close>

theorem thrown_error_ends_dispatch_witness:
  "get_prop (actions three_hooks) ''x'' =
     Array [\<lparr>priority = 30, callback = 3\<rparr>, \<lparr>priority = 10, callback = 1\<rparr>,
            \<lparr>priority = 20, callback = 2\<rparr>]
   \<and> second_throws 2 [0] (three_hooks\<lparr>actions := (actions three_hooks)(''x'' \<mapsto>
         Array [\<lparr>priority = 10, callback = 1\<rparr>, \<lparr>priority = 20, callback = 2\<rparr>,
                \<lparr>priority = 30, callback = 3\<rparr>])\<rparr>) =
       (Inl (Raised ''boom''), three_hooks\<lparr>actions := (actions three_hooks)(''x'' \<mapsto>
         Array [\<lparr>priority = 10, callback = 1\<rparr>, \<lparr>priority = 20, callback = 2\<rparr>,
                \<lparr>priority = 30, callback = 3\<rparr>])\<rparr>)
   \<and> doAction second_throws ''x'' 0 three_hooks =
       ([1, 2], Inl (Raised ''boom''),
        three_hooks\<lparr>actions := (actions three_hooks)(''x'' \<mapsto>
         Array [\<lparr>priority = 10, callback = 1\<rparr>, \<lparr>priority = 20, callback = 2\<rparr>,
                \<lparr>priority = 30, callback = 3\<rparr>])\<rparr>)
   \<and> applyFilters second_throws ''x'' 0 0 three_hooks =
       ([1, 2], Inl (Raised ''boom''),
        three_hooks\<lparr>filters := (filters three_hooks)(''x'' \<mapsto>
         Array [\<lparr>priority = 10, callback = 1\<rparr>, \<lparr>priority = 20, callback = 2\<rparr>,
                \<lparr>priority = 30, callback = 3\<rparr>])\<rparr>)"
proof -
  let ?es = "[\<lparr>priority = 30, callback = 3\<rparr>, \<lparr>priority = 10, callback = 1\<rparr>,
              \<lparr>priority = 20, callback = 2\<rparr>]"
  let ?sa = "three_hooks\<lparr>actions := (actions three_hooks)(''x'' \<mapsto> Array (sort_key priority ?es))\<rparr>"
  let ?sf = "three_hooks\<lparr>filters := (filters three_hooks)(''x'' \<mapsto> Array (sort_key priority ?es))\<rparr>"
  have k: "Suc 0 < length ?es" by simp
  have pa: "forEach (call_action second_throws 0) (take (Suc 0) (map callback (sort_key priority ?es))) ?sa
              = (take (Suc 0) (map callback (sort_key priority ?es)), None, ?sa)"
    by (simp add: call_action_def second_throws_def)
  have ta: "second_throws (map callback (sort_key priority ?es) ! Suc 0) [0] ?sa = (Inl (Raised ''boom''), ?sa)"
    by (simp add: second_throws_def)
  have pf: "forEach (call_filter second_throws 0) (take (Suc 0) (map callback (sort_key priority ?es))) (0, ?sf)
              = (take (Suc 0) (map callback (sort_key priority ?es)), None, 1, ?sf)"
    by (simp add: call_filter_def second_throws_def)
  have tf: "second_throws (map callback (sort_key priority ?es) ! Suc 0) [1, 0] ?sf = (Inl (Raised ''boom''), ?sf)"
    by (simp add: second_throws_def)
  note t = thrown_error_ends_dispatch[of three_hooks "''x''" ?es "Suc 0" second_throws 0 ?sa
      "Raised ''boom''" ?sa ?es 0 1 ?sf ?sf]
  from t[THEN conjunct1] three_hooks_stored(1) k pa ta
  have d: "doAction second_throws ''x'' 0 three_hooks =
             (take (Suc (Suc 0)) (map callback (sort_key priority ?es)), Inl (Raised ''boom''), ?sa)"
    by (rule mp[OF _ conjI[OF _ conjI[OF _ conjI]]])
  from t[THEN conjunct2] three_hooks_stored(2) k pf tf
  have a: "applyFilters second_throws ''x'' 0 0 three_hooks =
             (take (Suc (Suc 0)) (map callback (sort_key priority ?es)), Inl (Raised ''boom''), ?sf)"
    by (rule mp[OF _ conjI[OF _ conjI[OF _ conjI]]])
  from ta have ta': "second_throws 2 [0] ?sa = (Inl (Raised ''boom''), ?sa)" by simp
  from d a ta' three_hooks_stored(1) show ?thesis by simp
qed

subsection \<open>Tags that name a member of the prototype\<close>

text \<open>
  The registry keeps its arrays in objects created by \<open>{}\<close>, so a tag such as
  \<open>constructor\<close> or \<open>toString\<close> is found there before anything is registered. The
  theorems of this part evaluate the methods on a new registry at such tags.
\<close>

text \<open>
  Claim C5 at the tag \<open>constructor\<close>: nothing is registered, and \<open>removeAction\<close> and
  \<open>removeFilter\<close> throw a \<open>TypeError\<close> where the claim has a call without effect and
  without error.
\<close>

theorem remove_under_inherited_name_throws:
  "removeAction ''constructor'' cb (new_Hooks u) = (Inl TypeError, new_Hooks u)
   \<and> removeFilter ''constructor'' cb (new_Hooks u) = (Inl TypeError, new_Hooks u)"
  by (simp add: eval_defs)

text \<open>
  Claim C7 at the tag \<open>hasOwnProperty\<close>: while the tag is absent, \<open>hasAction\<close> answers
  true and both dispatches throw; with an empty array stored under it, \<open>hasAction\<close>
  answers false and both dispatches return. The two cases are not treated alike.
\<close>

theorem absent_inherited_name_differs_from_empty:
  "hasAction ''hasOwnProperty'' (new_Hooks u)
   \<and> \<not> hasAction ''hasOwnProperty'' ((new_Hooks u)\<lparr>actions := [''hasOwnProperty'' \<mapsto> Array []]\<rparr>)
   \<and> fst (snd (doAction cbs ''hasOwnProperty'' opts (new_Hooks u))) = Inl TypeError
   \<and> fst (snd (doAction cbs ''hasOwnProperty'' opts
        ((new_Hooks u)\<lparr>actions := [''hasOwnProperty'' \<mapsto> Array []]\<rparr>))) = Inr ()
   \<and> fst (snd (applyFilters cbs ''hasOwnProperty'' v opts (new_Hooks u))) = Inl TypeError
   \<and> fst (snd (applyFilters cbs ''hasOwnProperty'' v opts
        ((new_Hooks u)\<lparr>filters := [''hasOwnProperty'' \<mapsto> Array []]\<rparr>))) = Inr v"
  by (simp add: eval_defs)

text \<open>
  Claim C8 at the tag \<open>toString\<close>, under which no filter and no action is registered:
  \<open>applyFilters\<close> does not return its value and \<open>doAction\<close> is not silent; both throw.
\<close>

theorem dispatch_on_inherited_name_throws:
  "applyFilters cbs ''toString'' v opts (new_Hooks u) = ([], Inl TypeError, new_Hooks u)
   \<and> doAction cbs ''toString'' opts (new_Hooks u) = ([], Inl TypeError, new_Hooks u)"
  by (simp add: eval_defs)

text \<open>
  Claim C9 at the tags \<open>valueOf\<close> and \<open>__proto__\<close>: \<open>addAction\<close> and \<open>addFilter\<close> throw,
  and no entry is stored.
\<close>

theorem add_under_inherited_name_throws:
  "addAction ''valueOf'' cb prio (new_Hooks u) =
     (Inl TypeError, (new_Hooks u)\<lparr>actions := [''valueOf'' \<mapsto> Builtin (Some 0)]\<rparr>)
   \<and> addFilter ''valueOf'' cb prio (new_Hooks u) =
     (Inl TypeError, (new_Hooks u)\<lparr>filters := [''valueOf'' \<mapsto> Builtin (Some 0)]\<rparr>)
   \<and> addAction ''__proto__'' cb prio (new_Hooks u) = (Inl TypeError, new_Hooks u)"
  by (simp add: eval_defs)

text \<open>
  Claim C10 at the tag \<open>constructor\<close>: on a new registry, where no tag has a sequence,
  \<open>hasAction\<close> and \<open>hasFilter\<close> answer true.
\<close>

theorem has_reports_inherited_name:
  "hasAction ''constructor'' (new_Hooks u) \<and> hasFilter ''constructor'' (new_Hooks u)"
  by (simp add: eval_defs)

end
